theory Spec2Isabelle
  imports Complex_Main "HOL-Library.Multiset"
begin

section \<open>The SQLite store of the bot (src/client/database.py)\<close>

text \<open>
  The two tables created by \<open>Database.initialize\<close>.  A row of \<open>queue\<close> is a pending
  transcription request, a row of \<open>transcriptions\<close> a finished one.  All columns are
  \<open>INTEGER NOT NULL\<close> (Python's unbounded \<open>int\<close>) except \<open>locale\<close> and \<open>text\<close>.
\<close>

record job =
  job_id :: int
  user_id :: int
  message_id :: int
  channel_id :: int
  job_locale :: string

record transcription =
  tr_id :: int
  tr_message_id :: int
  tr_channel_id :: int
  tr_text :: string
  created_at :: int

text \<open>
  The \<open>Database\<close> object: the rows of both tables in rowid order, the counter that
  SQLite keeps in \<open>sqlite_sequence\<close> for each \<open>AUTOINCREMENT\<close> column, and the
  \<open>asyncio.Event\<close> \<open>task_available\<close>.
\<close>

record database =
  queue :: "job list"
  queue_seq :: int
  transcriptions :: "transcription list"
  transcriptions_seq :: int
  task_available :: bool

text \<open>
  \<open>INTEGER PRIMARY KEY AUTOINCREMENT\<close>: the new rowid is one more than the largest
  rowid that was ever in the table (the larger of the recorded sequence value and the
  rowids present).
\<close>

definition autoincrement :: "int \<Rightarrow> int list \<Rightarrow> int" where
  "autoincrement s rowids = fold max rowids s + 1"

text \<open>The state of a \<open>Database\<close> on a new file, after \<open>__init__\<close>.\<close>

definition Database :: database where
  "Database = \<lparr>queue = [], queue_seq = 0, transcriptions = [], transcriptions_seq = 0,
     task_available = False\<rparr>"

text \<open>\<open>initialize\<close>: the tables exist already; the event is set when a job is pending.\<close>

definition initialize :: "database \<Rightarrow> database" where
  "initialize d = (if int (length (queue d)) > 0 then d\<lparr>task_available := True\<rparr> else d)"

text \<open>\<open>SELECT COUNT(*) FROM queue WHERE user_id = ?\<close>, then \<open>bool\<close> of the count.\<close>

definition user_in_queue :: "database \<Rightarrow> int \<Rightarrow> bool" where
  "user_in_queue d uid = (int (length (filter (\<lambda>j. user_id j = uid) (queue d))) \<noteq> 0)"

definition message_in_queue :: "database \<Rightarrow> int \<Rightarrow> bool" where
  "message_in_queue d mid = (int (length (filter (\<lambda>j. message_id j = mid) (queue d))) \<noteq> 0)"

text \<open>
  \<open>add_to_queue\<close> in its two parts: the \<open>INSERT\<close> with its \<open>commit\<close>, and the
  \<open>task_available.set()\<close> that follows it.
\<close>

definition insert_job :: "database \<Rightarrow> int \<Rightarrow> int \<Rightarrow> int \<Rightarrow> string \<Rightarrow> database" where
  "insert_job d uid mid cid loc =
     (let i = autoincrement (queue_seq d) (map job_id (queue d))
      in d\<lparr>queue := queue d @
              [\<lparr>job_id = i, user_id = uid, message_id = mid, channel_id = cid, job_locale = loc\<rparr>],
            queue_seq := i\<rparr>)"

definition add_to_queue :: "database \<Rightarrow> int \<Rightarrow> int \<Rightarrow> int \<Rightarrow> string \<Rightarrow> database" where
  "add_to_queue d uid mid cid loc = (insert_job d uid mid cid loc)\<lparr>task_available := True\<rparr>"

definition get_queue_size :: "database \<Rightarrow> int" where
  "get_queue_size d = int (length (queue d))"

text \<open>\<open>SELECT * FROM queue ORDER BY id ASC LIMIT 1\<close>: a row of least id, if there is a row.\<close>

fun select_oldest :: "job list \<Rightarrow> job option" where
  "select_oldest [] = None"
| "select_oldest (j # js) =
     (case select_oldest js of
        None \<Rightarrow> Some j
      | Some k \<Rightarrow> if job_id j \<le> job_id k then Some j else Some k)"

text \<open>\<open>DELETE FROM queue WHERE id = ?\<close> with its \<open>commit\<close>.\<close>

definition delete_job :: "database \<Rightarrow> int \<Rightarrow> database" where
  "delete_job d i = d\<lparr>queue := filter (\<lambda>j. job_id j \<noteq> i) (queue d)\<rparr>"

text \<open>
  \<open>get\<close>, run with no other task scheduled in between: the loop either returns the
  popped row, or is left suspended in \<open>task_available.wait()\<close>; it has no other exit.
\<close>

datatype get_result = Returned job database | Suspended database

function get :: "database \<Rightarrow> get_result" where
  "get d =
     (case select_oldest (queue d) of
        Some m \<Rightarrow> Returned m (delete_job d (job_id m))
      | None \<Rightarrow>
          if task_available d then get (d\<lparr>task_available := False\<rparr>)
          else Suspended d)"
  by pat_completeness auto
termination
  by (relation "measure (\<lambda>d. if task_available d then 1 else 0)") auto

text \<open>
  \<open>add_transcription\<close>: \<open>now\<close> is \<open>int(datetime.now(timezone.utc).timestamp())\<close>;
  the result is \<open>(cursor.lastrowid, timestamp)\<close>.
\<close>

definition add_transcription ::
  "database \<Rightarrow> int \<Rightarrow> int \<Rightarrow> int \<Rightarrow> string \<Rightarrow> (int \<times> int) \<times> database" where
  "add_transcription d now mid cid txt =
     (let i = autoincrement (transcriptions_seq d) (map tr_id (transcriptions d))
      in ((i, now),
          d\<lparr>transcriptions := transcriptions d @
               [\<lparr>tr_id = i, tr_message_id = mid, tr_channel_id = cid, tr_text = txt,
                 created_at = now\<rparr>],
            transcriptions_seq := i\<rparr>))"

text \<open>
  \<open>get_transcription\<close>: \<open>fetchone\<close> of the rows matching both columns, in rowid order.
\<close>

definition get_transcription :: "database \<Rightarrow> int \<Rightarrow> int \<Rightarrow> transcription option" where
  "get_transcription d mid cid =
     find (\<lambda>t. tr_message_id t = mid \<and> tr_channel_id t = cid) (transcriptions d)"

text \<open>\<open>delete_outdated\<close>: \<open>DELETE FROM transcriptions WHERE created_at < now - days * 86400\<close>.\<close>

definition delete_outdated :: "database \<Rightarrow> int \<Rightarrow> int \<Rightarrow> database" where
  "delete_outdated d now days =
     d\<lparr>transcriptions := filter (\<lambda>t. \<not> created_at t < now - days * 86400) (transcriptions d)\<rparr>"

definition delete_outdated_default_days :: int where
  "delete_outdated_default_days = 7"

section \<open>The transcribe command (src/cogs/transcribe.py)\<close>

text \<open>
  What the command reads of a \<open>discord.Message\<close> and of its
  \<open>discord.ApplicationContext\<close>.  \<open>duration_secs\<close> is \<open>Optional[float]\<close>; the only
  operation on it is the comparison with 60, so its value is taken as a real number.
\<close>

record attachment =
  duration_secs :: "real option"

record message =
  msg_id :: int
  msg_channel_id :: int
  attachments :: "attachment list"
  flags_value :: int

record app_context =
  author_id :: int
  ctx_locale :: "string option"
  guild_locale :: "string option"

text \<open>
  \<open>return message.attachments and message.flags.value >> 13\<close>, as the truth value that
  \<open>if not self.has_voice_note(message)\<close> tests.  Python's \<open>>>\<close> on \<open>int\<close> is the
  floor division by a power of two, which is \<open>drop_bit\<close> on \<open>int\<close>.
\<close>

definition has_voice_note :: "message \<Rightarrow> bool" where
  "has_voice_note m = (attachments m \<noteq> [] \<and> drop_bit 13 (flags_value m) \<noteq> 0)"

text \<open>The embeds of src/utils/embed.py, by constructor and the arguments that vary.\<close>

datatype embed =
    Error_embed string
  | Queue_embed_added int
  | Queue_embed_starting
  | Transcribed_embed int string int int

datatype error = TypeError | IndexError | PipelineError

record response =
  resp_ctx :: app_context
  resp_embed :: embed
  cooldown_reset :: bool

record reply =
  reply_to :: int
  reply_mention :: int
  reply_embed :: embed
  reply_locale :: string

text \<open>Python's \<open>a or b\<close> on an optional string: \<open>None\<close> and the empty string are false.\<close>

definition py_or :: "string option \<Rightarrow> string \<Rightarrow> string" where
  "py_or a b = (case a of None \<Rightarrow> b | Some s \<Rightarrow> if s = [] then b else s)"

definition locale_of :: "app_context \<Rightarrow> string" where
  "locale_of ctx = py_or (ctx_locale ctx) (py_or (guild_locale ctx) ''en-US'')"

section \<open>The worker (src/utils/transcriber.py) and the tasks of the event loop\<close>

text \<open>
  The coroutines of the bot run on one asyncio event loop: a coroutine runs alone until
  its next \<open>await\<close>, where another one may be scheduled.  Each coroutine is therefore a
  machine with one control point per stretch of code between two awaits that reads or
  writes the store, the event or \<open>queue_size\<close>.

  Control points of \<open>Transcribe.transcribe\<close>: before \<open>has_voice_note\<close>; before the
  query of \<open>user_in_queue\<close>; before the query of \<open>message_in_queue\<close>; before the query of
  \<open>get_transcription\<close>; before the reading of \<open>task_available\<close> and \<open>queue_size\<close>; before
  the \<open>INSERT\<close> of \<open>add_to_queue\<close>; before its \<open>task_available.set()\<close>; before
  \<open>queue_size += 1\<close>; finished.
\<close>

datatype hpc =
    H_start | H_user | H_message | H_cache | H_decide
  | H_insert embed | H_set embed | H_count embed | H_done

record handler =
  h_ctx :: app_context
  h_message :: message
  h_pc :: hpc

text \<open>
  Control points of \<open>Transcriber.process_queue\<close> with \<open>Database.get\<close> inlined: before the
  \<open>SELECT\<close>; between the \<open>SELECT\<close> that found a row and its \<open>DELETE\<close>; in
  \<open>task_available.wait()\<close>; \<open>get\<close> has committed the \<open>DELETE\<close> and returns; before
  \<open>add_transcription\<close>; before \<open>message.reply\<close>; ended by an exception.
\<close>

datatype wpc =
    W_select | W_found job | W_wait | W_got job
  | W_add job string | W_reply job string int int | W_crashed

text \<open>
  What the Discord client and the speech model answer while a job is processed: the
  channel is not resolved, \<open>fetch_message\<close> raises \<open>NotFound\<close>, the audio is transcribed
  to a text, or a call raises another exception.
\<close>

datatype ext = Channel_missing | Message_missing | Transcribed string | Failed

record bot =
  owner_ids :: "int set"
  db :: database
  queue_size :: int
  responses :: "(error + response) list"
  replies :: "reply list"
  worker :: wpc
  handlers :: "handler list"

definition is_owner :: "bot \<Rightarrow> int \<Rightarrow> bool" where
  "is_owner b uid = (uid \<in> owner_ids b)"

definition respond :: "bot \<Rightarrow> app_context \<Rightarrow> embed \<Rightarrow> bool \<Rightarrow> bot" where
  "respond b ctx e r =
     b\<lparr>responses := responses b @ [Inr \<lparr>resp_ctx = ctx, resp_embed = e, cooldown_reset = r\<rparr>]\<rparr>"

definition raise :: "bot \<Rightarrow> error \<Rightarrow> bot" where
  "raise b x = b\<lparr>responses := responses b @ [Inl x]\<rparr>"

text \<open>
  \<open>transcribe\<close> run from its first line to its last with nothing scheduled in between.
  The branches are those of the source, in its order.  \<open>None > 60\<close> raises
  \<open>TypeError\<close>, which \<open>on_application_command_error\<close> re-raises.
\<close>

definition transcribe :: "bot \<Rightarrow> app_context \<Rightarrow> message \<Rightarrow> bot" where
  "transcribe b ctx m =
     (if \<not> has_voice_note m then
        respond b ctx (Error_embed ''transcribe.no-voice-note'') True
      else if \<not> is_owner b (author_id ctx) \<and> user_in_queue (db b) (author_id ctx) then
        respond b ctx (Error_embed ''transcribe.user-in-queue'') True
      else if message_in_queue (db b) (msg_id m) then
        respond b ctx (Error_embed ''transcribe.message-in-queue'') True
      else
        (case attachments m of
           [] \<Rightarrow> raise b IndexError
         | a # _ \<Rightarrow>
            (case duration_secs a of
               None \<Rightarrow> raise b TypeError
             | Some secs \<Rightarrow>
                if secs > 60 then
                  respond b ctx (Error_embed ''transcribe.too-long'') True
                else
                  (case get_transcription (db b) (msg_id m) (msg_channel_id m) of
                     Some data \<Rightarrow>
                       respond b ctx
                         (Transcribed_embed (msg_id m) (tr_text data) (tr_id data)
                            (created_at data)) False
                   | None \<Rightarrow>
                       (let e = (if task_available (db b)
                                 then Queue_embed_added (queue_size b + 1)
                                 else Queue_embed_starting);
                            b1 = b\<lparr>db := add_to_queue (db b) (author_id ctx) (msg_id m)
                                          (msg_channel_id m) (locale_of ctx)\<rparr>;
                            b2 = b1\<lparr>queue_size := queue_size b1 + 1\<rparr>
                        in respond b2 ctx e False)))))"

text \<open>One stretch of \<open>transcribe\<close> between two awaits, from the control point of \<open>h\<close>.\<close>

definition at_pc :: "handler \<Rightarrow> hpc \<Rightarrow> handler" where
  "at_pc h p = h\<lparr>h_pc := p\<rparr>"

fun hstep :: "handler \<Rightarrow> bot \<Rightarrow> handler \<times> bot" where
  "hstep h b =
     (let ctx = h_ctx h; m = h_message h in
      case h_pc h of
        H_start \<Rightarrow>
          if \<not> has_voice_note m then
            (at_pc h H_done, respond b ctx (Error_embed ''transcribe.no-voice-note'') True)
          else if \<not> is_owner b (author_id ctx) then (at_pc h H_user, b)
          else (at_pc h H_message, b)
      | H_user \<Rightarrow>
          if user_in_queue (db b) (author_id ctx) then
            (at_pc h H_done, respond b ctx (Error_embed ''transcribe.user-in-queue'') True)
          else (at_pc h H_message, b)
      | H_message \<Rightarrow>
          if message_in_queue (db b) (msg_id m) then
            (at_pc h H_done, respond b ctx (Error_embed ''transcribe.message-in-queue'') True)
          else
            (case attachments m of
               [] \<Rightarrow> (at_pc h H_done, raise b IndexError)
             | a # _ \<Rightarrow>
                (case duration_secs a of
                   None \<Rightarrow> (at_pc h H_done, raise b TypeError)
                 | Some secs \<Rightarrow>
                    if secs > 60 then
                      (at_pc h H_done, respond b ctx (Error_embed ''transcribe.too-long'') True)
                    else (at_pc h H_cache, b)))
      | H_cache \<Rightarrow>
          (case get_transcription (db b) (msg_id m) (msg_channel_id m) of
             Some data \<Rightarrow>
               (at_pc h H_done,
                respond b ctx
                  (Transcribed_embed (msg_id m) (tr_text data) (tr_id data) (created_at data))
                  False)
           | None \<Rightarrow> (at_pc h H_decide, b))
      | H_decide \<Rightarrow>
          (at_pc h (H_insert (if task_available (db b)
                              then Queue_embed_added (queue_size b + 1)
                              else Queue_embed_starting)), b)
      | H_insert e \<Rightarrow>
          (at_pc h (H_set e),
           b\<lparr>db := insert_job (db b) (author_id ctx) (msg_id m) (msg_channel_id m)
                     (locale_of ctx)\<rparr>)
      | H_set e \<Rightarrow> (at_pc h (H_count e), b\<lparr>db := (db b)\<lparr>task_available := True\<rparr>\<rparr>)
      | H_count e \<Rightarrow>
          (at_pc h H_done, respond (b\<lparr>queue_size := queue_size b + 1\<rparr>) ctx e False)
      | H_done \<Rightarrow> (h, b))"

text \<open>
  One stretch of \<open>process_queue\<close>.  \<open>x\<close> is the answer of the external calls made in
  this stretch and \<open>now\<close> the clock read by \<open>add_transcription\<close>.  In \<open>W_wait\<close> the
  worker stays suspended while the event is not set; when it is set, \<open>wait()\<close> returns
  and \<open>clear()\<close> follows with no await in between.
\<close>

definition make_reply :: "job \<Rightarrow> string \<Rightarrow> int \<Rightarrow> int \<Rightarrow> reply" where
  "make_reply task txt uid time =
     \<lparr>reply_to = message_id task, reply_mention = user_id task,
      reply_embed = Transcribed_embed (message_id task) txt uid time,
      reply_locale = job_locale task\<rparr>"

fun wstep :: "ext \<Rightarrow> int \<Rightarrow> bot \<Rightarrow> bot" where
  "wstep x now b =
     (case worker b of
        W_select \<Rightarrow>
          (case select_oldest (queue (db b)) of
             Some m \<Rightarrow> b\<lparr>worker := W_found m\<rparr>
           | None \<Rightarrow> b\<lparr>worker := W_wait\<rparr>)
      | W_found m \<Rightarrow> b\<lparr>db := delete_job (db b) (job_id m), worker := W_got m\<rparr>
      | W_wait \<Rightarrow>
          if task_available (db b)
          then b\<lparr>db := (db b)\<lparr>task_available := False\<rparr>, worker := W_select\<rparr>
          else b
      | W_got task \<Rightarrow>
          (let b1 = b\<lparr>queue_size := queue_size b - 1\<rparr> in
           case x of
             Channel_missing \<Rightarrow> b1\<lparr>worker := W_select\<rparr>
           | Message_missing \<Rightarrow> b1\<lparr>worker := W_select\<rparr>
           | Transcribed txt \<Rightarrow> b1\<lparr>worker := W_add task txt\<rparr>
           | Failed \<Rightarrow> b1\<lparr>worker := W_crashed\<rparr>)
      | W_add task txt \<Rightarrow>
          (case add_transcription (db b) now (message_id task) (channel_id task) txt of
             ((uid, time), d) \<Rightarrow> b\<lparr>db := d, worker := W_reply task txt uid time\<rparr>)
      | W_reply task txt uid time \<Rightarrow>
          (case x of
             Failed \<Rightarrow> b\<lparr>worker := W_crashed\<rparr>
           | _ \<Rightarrow> b\<lparr>replies := replies b @ [make_reply task txt uid time], worker := W_select\<rparr>)
      | W_crashed \<Rightarrow> b)"

text \<open>
  What the event loop can do next: start a handler for a new invocation of the command,
  resume a handler, resume the worker, or run the three-hourly \<open>Bot.delete_outdated\<close>
  (src/main.py), which calls \<open>Database.delete_outdated\<close> with its default.
\<close>

datatype event = Invoke app_context message | Handler nat | Worker ext int | Sweep int

definition delete_outdated_loop_hours :: int where
  "delete_outdated_loop_hours = 3"

fun step :: "event \<Rightarrow> bot \<Rightarrow> bot" where
  "step (Invoke ctx m) b =
     b\<lparr>handlers := handlers b @ [\<lparr>h_ctx = ctx, h_message = m, h_pc = H_start\<rparr>]\<rparr>"
| "step (Handler i) b =
     (if i < length (handlers b) then
        (case hstep (handlers b ! i) b of
           (h, b1) \<Rightarrow> b1\<lparr>handlers := (handlers b1)[i := h]\<rparr>)
      else b)"
| "step (Worker x now) b = wstep x now b"
| "step (Sweep now) b = b\<lparr>db := delete_outdated (db b) now delete_outdated_default_days\<rparr>"

fun run :: "event list \<Rightarrow> bot \<Rightarrow> bot" where
  "run [] b = b"
| "run (e # es) b = run es (step e b)"

text \<open>
  \<open>Bot.on_start\<close> on the store \<open>d\<close> found on disk: \<open>initialize\<close>, then
  \<open>queue_size = get_queue_size()\<close>, then the worker task is created.
\<close>

definition on_start :: "int set \<Rightarrow> database \<Rightarrow> bot" where
  "on_start owners d =
     (let d1 = initialize (d\<lparr>task_available := False\<rparr>)
      in \<lparr>owner_ids = owners, db = d1, queue_size = get_queue_size d1, responses = [],
          replies = [], worker = W_select, handlers = []\<rparr>)"

text \<open>
  The states of the bot: those after \<open>on_start\<close> on any store whose queue rows have
  distinct ids (the primary key), none above the recorded sequence value (which SQLite
  raises with every \<open>INSERT\<close>), and those that the event loop reaches from there.
\<close>

inductive reachable :: "int set \<Rightarrow> bot \<Rightarrow> bool" for owners :: "int set" where
  boot: "distinct (map job_id (queue d)) \<Longrightarrow> \<forall>j\<in>set (queue d). job_id j \<le> queue_seq d \<Longrightarrow>
           reachable owners (on_start owners d)"
| next_event: "reachable owners b \<Longrightarrow> reachable owners (step e b)"

section \<open>Notions used to state the properties\<close>

text \<open>A series of \<open>add_to_queue\<close> calls, and a series of \<open>get\<close> calls that all return.\<close>

fun enqueue_all :: "database \<Rightarrow> (int \<times> int \<times> int \<times> string) list \<Rightarrow> database" where
  "enqueue_all d [] = d"
| "enqueue_all d ((uid, mid, cid, loc) # rs) = enqueue_all (add_to_queue d uid mid cid loc) rs"

fun get_many :: "nat \<Rightarrow> database \<Rightarrow> job list" where
  "get_many 0 d = []"
| "get_many (Suc n) d =
     (case get d of Returned m d1 \<Rightarrow> m # get_many n d1 | Suspended d1 \<Rightarrow> [])"

definition request_of :: "job \<Rightarrow> int \<times> int \<times> int \<times> string" where
  "request_of j = (user_id j, message_id j, channel_id j, job_locale j)"




text \<open>The answer given to the last invocation, and the queue position it shows, if any.\<close>

definition last_embed :: "bot \<Rightarrow> embed option" where
  "last_embed b =
     (case rev (responses b) of
        [] \<Rightarrow> None
      | Inl x # _ \<Rightarrow> None
      | Inr r # _ \<Rightarrow> Some (resp_embed r))"

fun reported_position :: "embed \<Rightarrow> int option" where
  "reported_position (Queue_embed_added p) = Some p"
| "reported_position (Error_embed i) = None"
| "reported_position Queue_embed_starting = None"
| "reported_position (Transcribed_embed mid txt uid time) = None"

text \<open>A handler runs alone from its start to its end in at most eight stretches.\<close>

definition run_alone :: "nat \<Rightarrow> bot \<Rightarrow> bot" where
  "run_alone i b = run (replicate 8 (Handler i)) b"

text \<open>
  The handlers that have committed their \<open>INSERT\<close> and have yet to call
  \<open>task_available.set()\<close>, respectively to add one to \<open>queue_size\<close>.
\<close>

fun unsignalled :: "handler \<Rightarrow> bool" where
  "unsignalled h = (case h_pc h of H_set e \<Rightarrow> True | _ \<Rightarrow> False)"

fun uncounted :: "handler \<Rightarrow> bool" where
  "uncounted h = (case h_pc h of H_set e \<Rightarrow> True | H_count e \<Rightarrow> True | _ \<Rightarrow> False)"


fun holds_job :: "wpc \<Rightarrow> bool" where
  "holds_job (W_got task) = True"
| "holds_job p = False"

text \<open>Concrete inputs for the examples.\<close>

definition voice_message :: "int \<Rightarrow> int \<Rightarrow> real \<Rightarrow> message" where
  "voice_message mid cid secs =
     \<lparr>msg_id = mid, msg_channel_id = cid, attachments = [\<lparr>duration_secs = Some secs\<rparr>],
      flags_value = 8192\<rparr>"

definition user_ctx :: "int \<Rightarrow> app_context" where
  "user_ctx uid = \<lparr>author_id = uid, ctx_locale = Some ''en-US'', guild_locale = None\<rparr>"

definition example_queue :: database where
  "example_queue = enqueue_all Database [(1, 100, 9, ''en-US''), (2, 101, 9, ''fr'')]"

text \<open>
  The bot after a first start on an empty store and one accepted request of user 1 for
  message 100; the same after the worker has popped that job and not yet counted it; the
  bot whose worker waits on an empty queue while a handler has inserted a job and not yet
  set the event; and the bot after a first start with one transcription of message 100
  in the store.
\<close>

definition first_request :: "event list" where
  "first_request = Invoke (user_ctx 1) (voice_message 100 9 3) # replicate 8 (Handler 0)"

definition one_queued :: bot where
  "one_queued = run first_request (on_start {} Database)"

definition job_popped :: bot where
  "job_popped = run (replicate 2 (Worker (Transcribed ''hello'') 1000)) one_queued"


definition one_cached :: bot where
  "one_cached =
     (on_start {} Database)
       \<lparr>db := snd (add_transcription Database 1000 100 9 ''hello'')\<rparr>"





text \<open>
  Two schedules from a first start on an empty store.  In \<open>race\<close>, users 1 and 2 invoke
  the command on message 100 and both handlers pass \<open>message_in_queue\<close> before either
  inserts.  In \<open>resubmit_in_flight\<close>, user 1 invokes it, the worker pops the job, user 2
  invokes it on the same message while the job is processed, and the worker finishes the
  first job and takes the second as far as \<open>add_transcription\<close>.
\<close>

definition race :: "event list" where
  "race =
     [Invoke (user_ctx 1) (voice_message 100 9 3), Invoke (user_ctx 2) (voice_message 100 9 3),
      Handler 0, Handler 0, Handler 0, Handler 1, Handler 1, Handler 1,
      Handler 0, Handler 0, Handler 0, Handler 0, Handler 0,
      Handler 1, Handler 1, Handler 1, Handler 1, Handler 1]"

definition resubmit_in_flight :: "event list" where
  "resubmit_in_flight =
     [Invoke (user_ctx 1) (voice_message 100 9 3)] @ replicate 8 (Handler 0) @
     replicate 2 (Worker (Transcribed ''hello'') 1000) @
     [Invoke (user_ctx 2) (voice_message 100 9 3)] @ replicate 8 (Handler 1) @
     replicate 3 (Worker (Transcribed ''hello'') 1000) @
     replicate 4 (Worker (Transcribed ''hello'') 2000)"

text \<open>
  \<open>queue_size\<close> is the size of the queue, up to the rows inserted by handlers that have
  not yet counted them and the row popped by a worker that has not yet counted it.
\<close>

definition counted :: "bot \<Rightarrow> bool" where
  "counted b =
     (get_queue_size (db b) + (if holds_job (worker b) then 1 else 0) =
        queue_size b + int (length (filter uncounted (handlers b))))"


text \<open>
  No row of the queue and no job held by the worker has an id above the recorded
  sequence value, and the job that the worker has popped has no row in the queue.
\<close>

definition below_sequence :: "bot \<Rightarrow> bool" where
  "below_sequence b =
     ((\<forall>j\<in>set (queue (db b)). job_id j \<le> queue_seq (db b))
      \<and> (\<forall>m. worker b = W_found m \<or> worker b = W_got m \<longrightarrow> job_id m \<le> queue_seq (db b))
      \<and> (\<forall>m. worker b = W_got m \<longrightarrow> job_id m \<notin> job_id ` set (queue (db b))))"

section \<open>The queue is first in, first out\<close>

text \<open>
  \<open>get\<close> calls itself after \<open>clear()\<close>; its equation is unfolded by hand, at the
  states where it is needed.
\<close>

declare get.simps [simp del]

lemma fold_max_ge: "(s::int) \<le> fold max xs s \<and> (\<forall>x\<in>set xs. x \<le> fold max xs s)"
proof (induction xs arbitrary: s)
  case Nil
  show ?case by simp
next
  case (Cons a xs)
  have "max a s \<le> fold max xs (max a s)" using Cons.IH by blast
  then show ?case using Cons.IH [of "max a s"] by auto
qed

lemma autoincrement_gt: "s < autoincrement s xs \<and> (\<forall>x\<in>set xs. x < autoincrement s xs)"
  using fold_max_ge [of s xs] by (auto simp: autoincrement_def)

lemma select_oldest_None: "(select_oldest q = None) = (q = [])"
  by (induction q) (auto split: option.splits)

lemma select_oldest_Some:
  "select_oldest q = Some m \<Longrightarrow> m \<in> set q \<and> (\<forall>k\<in>set q. job_id m \<le> job_id k)"
proof (induction q arbitrary: m)
  case Nil
  then show ?case by simp
next
  case (Cons j js)
  show ?case
  proof (cases "select_oldest js")
    case None
    then have "js = []" by (simp add: select_oldest_None)
    with Cons.prems show ?thesis by simp
  next
    case (Some k)
    from Cons.IH [OF Some] have k: "k \<in> set js" "\<forall>x\<in>set js. job_id k \<le> job_id x" by auto
    show ?thesis
    proof (cases "job_id j \<le> job_id k")
      case True
      with Some Cons.prems have "m = j" by simp
      with True k show ?thesis by fastforce
    next
      case False
      with Some Cons.prems have "m = k" by simp
      with False k show ?thesis by fastforce
    qed
  qed
qed

lemma filter_id_remove1:
  "distinct (map job_id q) \<Longrightarrow> m \<in> set q \<Longrightarrow> filter (\<lambda>j. job_id j \<noteq> job_id m) q = remove1 m q"
proof (induction q)
  case Nil
  then show ?case by simp
next
  case (Cons a q)
  show ?case
  proof (cases "a = m")
    case True
    have "job_id m \<notin> job_id ` set q" using Cons.prems(1) True by simp
    then have "\<forall>j\<in>set q. job_id j \<noteq> job_id m" by (metis imageI)
    then have "filter (\<lambda>j. job_id j \<noteq> job_id m) q = q" by (simp add: filter_id_conv)
    with True show ?thesis by simp
  next
    case False
    with Cons.prems have m: "m \<in> set q" by simp
    then have "job_id a \<noteq> job_id m" using Cons.prems(1) by auto
    with False Cons.IH m Cons.prems(1) show ?thesis by simp
  qed
qed

lemma get_nonempty:
  assumes "queue d \<noteq> []" and "distinct (map job_id (queue d))"
  shows "\<exists>m. get d = Returned m (d\<lparr>queue := remove1 m (queue d)\<rparr>) \<and> m \<in> set (queue d)
           \<and> (\<forall>k\<in>set (queue d). job_id m \<le> job_id k)"
proof -
  from assms(1) obtain m where m: "select_oldest (queue d) = Some m"
    using select_oldest_None [of "queue d"] by (cases "select_oldest (queue d)") auto
  from select_oldest_Some [OF m] have mem: "m \<in> set (queue d)"
    and least: "\<forall>k\<in>set (queue d). job_id m \<le> job_id k" by auto
  have "get d = Returned m (delete_job d (job_id m))" using m by (simp add: get.simps [of d])
  moreover have "delete_job d (job_id m) = d\<lparr>queue := remove1 m (queue d)\<rparr>"
    by (simp add: delete_job_def filter_id_remove1 [OF assms(2) mem])
  ultimately show ?thesis using mem least by auto
qed



lemma get_many_sorted:
  "distinct (map job_id (queue d)) \<Longrightarrow> n = length (queue d) \<Longrightarrow>
     mset (get_many n d) = mset (queue d) \<and> sorted_wrt (<) (map job_id (get_many n d))"
proof (induction n arbitrary: d)
  case 0
  then show ?case by simp
next
  case (Suc n)
  then have ne: "queue d \<noteq> []" by auto
  from get_nonempty [OF ne Suc.prems(1)] obtain m where
    g: "get d = Returned m (d\<lparr>queue := remove1 m (queue d)\<rparr>)" and mem: "m \<in> set (queue d)"
    and least: "\<forall>k\<in>set (queue d). job_id m \<le> job_id k" by blast
  let ?d = "d\<lparr>queue := remove1 m (queue d)\<rparr>"
  have dq: "distinct (queue d)" and inj: "inj_on job_id (set (queue d))"
    using Suc.prems(1) by (simp_all add: distinct_map)
  have "inj_on job_id (set (remove1 m (queue d)))"
    using inj set_remove1_subset [of m "queue d"] by (rule inj_on_subset)
  then have dist: "distinct (map job_id (queue ?d))"
    using dq by (simp add: distinct_map)
  have len: "n = length (queue ?d)" using Suc.prems(2) mem by (simp add: length_remove1)
  from Suc.IH [OF dist len] have ih: "mset (get_many n ?d) = mset (remove1 m (queue d))"
    "sorted_wrt (<) (map job_id (get_many n ?d))" by auto
  have "\<forall>k\<in>set (get_many n ?d). job_id m < job_id k"
  proof
    fix k assume "k \<in> set (get_many n ?d)"
    then have "k \<in> set (remove1 m (queue d))" using ih(1) by (metis set_mset_mset)
    then have kin: "k \<in> set (queue d)" and km: "k \<noteq> m" using dq by simp_all
    have "job_id k \<noteq> job_id m" using inj kin mem km by (metis inj_onD)
    with least kin show "job_id m < job_id k" by fastforce
  qed
  moreover have "get_many (Suc n) d = m # get_many n ?d" using g by simp
  moreover have "mset (queue d) = add_mset m (mset (remove1 m (queue d)))" using mem by simp
  ultimately show ?case using ih by simp
qed

lemma queue_add_to_queue:
  "queue (add_to_queue d u m c l) =
     queue d @ [\<lparr>job_id = autoincrement (queue_seq d) (map job_id (queue d)), user_id = u,
                 message_id = m, channel_id = c, job_locale = l\<rparr>]"
  by (simp add: add_to_queue_def insert_job_def Let_def)

lemma add_to_queue_sorted:
  "sorted_wrt (<) (map job_id (queue d)) \<Longrightarrow>
     sorted_wrt (<) (map job_id (queue (add_to_queue d u m c l)))"
  using autoincrement_gt [of "queue_seq d" "map job_id (queue d)"]
  by (auto simp: queue_add_to_queue sorted_wrt_append)

lemma enqueue_all_queue:
  "sorted_wrt (<) (map job_id (queue d)) \<Longrightarrow>
     sorted_wrt (<) (map job_id (queue (enqueue_all d rs)))
     \<and> map request_of (queue (enqueue_all d rs)) = map request_of (queue d) @ rs"
proof (induction d rs rule: enqueue_all.induct)
  case (1 d)
  then show ?case by simp
next
  case (2 d uid mid cid loc rs)
  from add_to_queue_sorted [OF "2.prems"] have "sorted_wrt (<) (map job_id (queue (add_to_queue d uid mid cid loc)))" .
  from "2.IH" [OF this] show ?case by (simp add: queue_add_to_queue request_of_def)
qed

lemma sorted_get_many:
  "sorted_wrt (<) (map job_id (queue d)) \<Longrightarrow> get_many (length (queue d)) d = queue d"
proof (induction "queue d" arbitrary: d)
  case Nil
  then show ?case by simp
next
  case (Cons j js)
  from Cons.hyps(2) [symmetric] Cons.prems have lt: "\<forall>k\<in>set js. job_id j < job_id k" and s: "sorted_wrt (<) (map job_id js)" by auto
  have sel: "select_oldest (j # js) = Some j"
  proof (cases "select_oldest js")
    case None then show ?thesis by simp
  next
    case (Some k)
    with select_oldest_Some [OF Some] lt show ?thesis by fastforce
  qed
  have del: "filter (\<lambda>k. job_id k \<noteq> job_id j) (j # js) = js" using lt by (auto simp: filter_id_conv)
  let ?d = "delete_job d (job_id j)"
  have q: "queue ?d = js" using del Cons.hyps(2) [symmetric] by (simp add: delete_job_def)
  have g: "get d = Returned j ?d" using sel Cons.hyps(2) [symmetric] by (simp add: get.simps [of d])
  have "get_many (length js) ?d = js" using Cons.hyps(1) [of ?d] q s by simp
  then show ?case using g Cons.hyps(2) [symmetric] by simp
qed

text \<open>
  Claim C1.  On a queue that is not empty, with the rowids distinct as the primary key
  makes them, \<open>get\<close> returns a row of least id and deletes that row and no other.  The
  rows returned by as many \<open>get\<close> calls as there are rows are the rows of the queue in
  strictly increasing id.  \<open>add_to_queue\<close> appends one row with the request's columns,
  whose id is greater than the recorded sequence value and than every id in the table,
  and records it as the new sequence value; so after any series of \<open>add_to_queue\<close> the
  rows come back from \<open>get\<close> in the order in which they were added.
\<close>

theorem get_returns_oldest_fifo:
  "(queue d \<noteq> [] \<and> distinct (map job_id (queue d)) \<longrightarrow>
      (\<exists>m. get d = Returned m (d\<lparr>queue := remove1 m (queue d)\<rparr>) \<and> m \<in> set (queue d)
           \<and> (\<forall>k\<in>set (queue d). job_id m \<le> job_id k)))
   \<and> (distinct (map job_id (queue d)) \<longrightarrow>
        mset (get_many (length (queue d)) d) = mset (queue d)
        \<and> sorted_wrt (<) (map job_id (get_many (length (queue d)) d)))
   \<and> (\<exists>j. queue (add_to_queue d uid mid cid loc) = queue d @ [j]
          \<and> request_of j = (uid, mid, cid, loc)
          \<and> queue_seq d < job_id j \<and> (\<forall>k\<in>set (queue d). job_id k < job_id j)
          \<and> queue_seq (add_to_queue d uid mid cid loc) = job_id j)
   \<and> (sorted_wrt (<) (map job_id (queue d)) \<longrightarrow>
        sorted_wrt (<) (map job_id (queue (enqueue_all d rs)))
        \<and> map request_of (queue (enqueue_all d rs)) = map request_of (queue d) @ rs
        \<and> get_many (length (queue (enqueue_all d rs))) (enqueue_all d rs)
            = queue (enqueue_all d rs))"
proof -
  have a: "queue d \<noteq> [] \<and> distinct (map job_id (queue d)) \<longrightarrow>
      (\<exists>m. get d = Returned m (d\<lparr>queue := remove1 m (queue d)\<rparr>) \<and> m \<in> set (queue d)
           \<and> (\<forall>k\<in>set (queue d). job_id m \<le> job_id k))"
    using get_nonempty [of d] by blast
  have b: "distinct (map job_id (queue d)) \<longrightarrow>
        mset (get_many (length (queue d)) d) = mset (queue d)
        \<and> sorted_wrt (<) (map job_id (get_many (length (queue d)) d))"
    using get_many_sorted [of d "length (queue d)"] by blast
  let ?j = "\<lparr>job_id = autoincrement (queue_seq d) (map job_id (queue d)), user_id = uid,
                 message_id = mid, channel_id = cid, job_locale = loc\<rparr>"
  have "queue (add_to_queue d uid mid cid loc) = queue d @ [?j]
          \<and> request_of ?j = (uid, mid, cid, loc)
          \<and> queue_seq d < job_id ?j \<and> (\<forall>k\<in>set (queue d). job_id k < job_id ?j)
          \<and> queue_seq (add_to_queue d uid mid cid loc) = job_id ?j"
    using autoincrement_gt [of "queue_seq d" "map job_id (queue d)"]
    by (simp add: queue_add_to_queue request_of_def add_to_queue_def insert_job_def Let_def)
  then have c: "\<exists>j. queue (add_to_queue d uid mid cid loc) = queue d @ [j]
          \<and> request_of j = (uid, mid, cid, loc)
          \<and> queue_seq d < job_id j \<and> (\<forall>k\<in>set (queue d). job_id k < job_id j)
          \<and> queue_seq (add_to_queue d uid mid cid loc) = job_id j" by blast
  have e: "sorted_wrt (<) (map job_id (queue d)) \<longrightarrow>
        sorted_wrt (<) (map job_id (queue (enqueue_all d rs)))
        \<and> map request_of (queue (enqueue_all d rs)) = map request_of (queue d) @ rs
        \<and> get_many (length (queue (enqueue_all d rs))) (enqueue_all d rs)
            = queue (enqueue_all d rs)"
    using enqueue_all_queue [of d rs] sorted_get_many [of "enqueue_all d rs"] by blast
  from a b c e show ?thesis by blast
qed

theorem get_returns_oldest_fifo_witness:
  "queue example_queue \<noteq> [] \<and> distinct (map job_id (queue example_queue))
   \<and> sorted_wrt (<) (map job_id (queue example_queue))
   \<and> (\<exists>m. get example_queue = Returned m (example_queue\<lparr>queue := remove1 m (queue example_queue)\<rparr>)
          \<and> m \<in> set (queue example_queue)
          \<and> (\<forall>k\<in>set (queue example_queue). job_id m \<le> job_id k))
   \<and> mset (get_many (length (queue example_queue)) example_queue) = mset (queue example_queue)
   \<and> map request_of (get_many 2 example_queue) = [(1, 100, 9, ''en-US''), (2, 101, 9, ''fr'')]"
proof -
  have q: "queue example_queue
     = [\<lparr>job_id = 1, user_id = 1, message_id = 100, channel_id = 9, job_locale = ''en-US''\<rparr>,
        \<lparr>job_id = 2, user_id = 2, message_id = 101, channel_id = 9, job_locale = ''fr''\<rparr>]"
    by (simp add: example_queue_def Database_def add_to_queue_def insert_job_def
        autoincrement_def)
  have h: "queue example_queue \<noteq> [] \<and> distinct (map job_id (queue example_queue))
     \<and> sorted_wrt (<) (map job_id (queue example_queue))"
    by (simp add: q)
  have e: "example_queue = enqueue_all example_queue []" by simp
  have l: "length (queue example_queue) = 2" by (simp add: q)
  note t = get_returns_oldest_fifo [of example_queue 0 0 0 "[]" "[]"]
  from t h have g: "get_many (length (queue example_queue)) example_queue = queue example_queue"
    using e by metis
  then have r: "map request_of (get_many 2 example_queue) = [(1, 100, 9, ''en-US''), (2, 101, 9, ''fr'')]"
    unfolding l by (simp add: q request_of_def)
  from t h r show ?thesis by blast
qed

section \<open>Removal of old transcriptions\<close>

text \<open>
  Claim C8.  \<open>delete_outdated\<close> deletes the transcriptions with
  \<open>created_at < now - days * 86400\<close> and keeps every other one in place, whatever has
  been read before; it leaves the queue alone.  The sweep of \<open>Bot.delete_outdated\<close>
  runs it with the default of 7 days, in a loop of 3 hours.  With 7 days, of two rows
  created 8 days and 1 day before \<open>now\<close> the first is deleted and the second kept.
\<close>

theorem delete_outdated_ttl:
  "set (transcriptions (delete_outdated d now days)) =
     {t \<in> set (transcriptions d). \<not> created_at t < now - days * 86400}
   \<and> transcriptions (delete_outdated d now days) =
       filter (\<lambda>t. now - days * 86400 \<le> created_at t) (transcriptions d)
   \<and> queue (delete_outdated d now days) = queue d
   \<and> db (step (Sweep now) b) = delete_outdated (db b) now 7
   \<and> delete_outdated_loop_hours = 3
   \<and> (created_at t1 = now - 8 * 86400 \<and> created_at t2 = now - 1 * 86400 \<longrightarrow>
        transcriptions (delete_outdated (d\<lparr>transcriptions := [t1, t2]\<rparr>) now
          delete_outdated_default_days) = [t2])"
  by (auto simp: delete_outdated_def not_less delete_outdated_default_days_def
      delete_outdated_loop_hours_def)

theorem delete_outdated_ttl_witness:
  "transcriptions (delete_outdated
     (Database\<lparr>transcriptions :=
        [\<lparr>tr_id = 1, tr_message_id = 100, tr_channel_id = 9, tr_text = ''old'',
          created_at = 1000000 - 8 * 86400\<rparr>,
         \<lparr>tr_id = 2, tr_message_id = 101, tr_channel_id = 9, tr_text = ''new'',
          created_at = 1000000 - 1 * 86400\<rparr>]\<rparr>) 1000000 delete_outdated_default_days)
   = [\<lparr>tr_id = 2, tr_message_id = 101, tr_channel_id = 9, tr_text = ''new'',
       created_at = 1000000 - 1 * 86400\<rparr>]"
  using delete_outdated_ttl [of Database 1000000 7 _
      "\<lparr>tr_id = 1, tr_message_id = 100, tr_channel_id = 9, tr_text = ''old'',
        created_at = 1000000 - 8 * 86400\<rparr>"
      "\<lparr>tr_id = 2, tr_message_id = 101, tr_channel_id = 9, tr_text = ''new'',
        created_at = 1000000 - 1 * 86400\<rparr>"]
  by simp

section \<open>The voice note check\<close>

lemma drop_bit_13_nonneg: "0 \<le> (k::int) \<Longrightarrow> (drop_bit 13 k \<noteq> 0) = (2 ^ 13 \<le> k)"
proof -
  assume k: "0 \<le> k"
  have "drop_bit 13 k = k div 2 ^ 13" by (simp add: drop_bit_eq_div)
  moreover have "(k div 2 ^ 13 \<noteq> 0) = (2 ^ 13 \<le> k)" using k by (simp add: div_pos_pos_trivial zdiv_eq_0_iff not_less)
  ultimately show ?thesis by simp
qed

text \<open>
  Claim C10.  For a message whose flags value is not negative (it is a field of bits),
  \<open>has_voice_note\<close> holds exactly when the message has an attachment and the flags value
  is at least \<open>2 ^ 13\<close>.  So a message with an attachment whose flags value shifted
  right by 13 is not zero passes the check, also when bit 13 itself is clear, as with
  the value \<open>2 ^ 14\<close>.
\<close>

theorem has_voice_note_iff:
  "(0 \<le> flags_value m \<longrightarrow>
      has_voice_note m = (attachments m \<noteq> [] \<and> 2 ^ 13 \<le> flags_value m))
   \<and> (attachments m \<noteq> [] \<and> drop_bit 13 (flags_value m) \<noteq> 0 \<longrightarrow> has_voice_note m)
   \<and> has_voice_note \<lparr>msg_id = i, msg_channel_id = c, attachments = [a], flags_value = 2 ^ 14\<rparr>
   \<and> \<not> bit ((2::int) ^ 14) 13"
proof -
  have a: "0 \<le> flags_value m \<longrightarrow>
      has_voice_note m = (attachments m \<noteq> [] \<and> 2 ^ 13 \<le> flags_value m)"
    unfolding has_voice_note_def using drop_bit_13_nonneg [of "flags_value m"] by blast
  have b: "attachments m \<noteq> [] \<and> drop_bit 13 (flags_value m) \<noteq> 0 \<longrightarrow> has_voice_note m"
    by (simp add: has_voice_note_def)
  have c: "has_voice_note \<lparr>msg_id = i, msg_channel_id = c, attachments = [a], flags_value = 2 ^ 14\<rparr>"
    by (simp add: has_voice_note_def drop_bit_eq_div)
  have d: "\<not> bit ((2::int) ^ 14) 13" by (simp add: bit_exp_iff)
  from a b c d show ?thesis by blast
qed

theorem has_voice_note_iff_witness:
  "has_voice_note (voice_message 100 9 3) \<and> \<not> has_voice_note ((voice_message 100 9 3)\<lparr>flags_value := 8191\<rparr>)"
  using has_voice_note_iff [of "voice_message 100 9 3"] has_voice_note_iff [of "(voice_message 100 9 3)\<lparr>flags_value := 8191\<rparr>"]
  by (simp add: voice_message_def)

section \<open>The command run alone\<close>

text \<open>
  A handler that is resumed eight times with nothing else scheduled in between does what
  \<open>transcribe\<close> does: the control points cut the body of the command and change
  nothing in it.
\<close>

lemma replicate_8: "replicate 8 x = [x, x, x, x, x, x, x, x]"
  by (simp add: numeral_eq_Suc)

lemma hstep_handlers: "handlers (snd (hstep h b)) = handlers b"
  by (cases "h_pc h") (simp_all add: respond_def raise_def Let_def split: list.splits option.splits)

lemma step_Handler_last:
  "handlers b = hs @ [h] \<Longrightarrow>
     step (Handler (length hs)) b = (snd (hstep h b))\<lparr>handlers := hs @ [fst (hstep h b)]\<rparr>"
  using hstep_handlers [of h b]
  by (cases "hstep h b") (simp del: hstep.simps)

lemma transcribe_run_alone:
  "run_alone (length (handlers b)) (step (Invoke ctx m) b) =
     (transcribe b ctx m)\<lparr>handlers := handlers b @ [\<lparr>h_ctx = ctx, h_message = m, h_pc = H_done\<rparr>]\<rparr>"
proof -
  note defs = run_alone_def replicate_8 transcribe_def
  note sms = at_pc_def respond_def raise_def is_owner_def
  consider (a) "\<not> has_voice_note m"
    | (b) "has_voice_note m" "\<not> is_owner b (author_id ctx)" "user_in_queue (db b) (author_id ctx)"
    | (c) "has_voice_note m" "\<not> is_owner b (author_id ctx)" "\<not> user_in_queue (db b) (author_id ctx)"
    | (d) "has_voice_note m" "is_owner b (author_id ctx)"
    by blast
  then show ?thesis
  proof cases
    case a
    then show ?thesis unfolding defs by (simp add: sms)
  next
    case b
    then show ?thesis unfolding defs by (simp add: sms)
  next
    case c
    show ?thesis
    proof (cases "message_in_queue (db b) (msg_id m)")
      case True
      with c show ?thesis unfolding defs by (simp add: sms)
    next
      case q: False
      show ?thesis
      proof (cases "attachments m")
        case Nil
        with c q show ?thesis unfolding defs by (simp add: sms)
      next
        case (Cons a as)
        show ?thesis
        proof (cases "duration_secs a")
          case None
          with c q Cons show ?thesis unfolding defs by (simp add: sms)
        next
          case (Some secs)
          note d = this
          show ?thesis
          proof (cases "secs > 60")
            case True
            with c q Cons d show ?thesis unfolding defs by (simp add: sms)
          next
            case s: False
            show ?thesis
            proof (cases "get_transcription (db b) (msg_id m) (msg_channel_id m)")
              case (Some data)
              with c q Cons d s show ?thesis unfolding defs by (simp add: sms)
            next
              case None
              with c q Cons d s show ?thesis unfolding defs
                by (simp add: sms add_to_queue_def)
            qed
          qed
        qed
      qed
    qed
  next
    case d
    show ?thesis
    proof (cases "message_in_queue (db b) (msg_id m)")
      case True
      with d show ?thesis unfolding defs by (simp add: sms)
    next
      case q: False
      show ?thesis
      proof (cases "attachments m")
        case Nil
        with d q show ?thesis unfolding defs by (simp add: sms)
      next
        case (Cons a as)
        show ?thesis
        proof (cases "duration_secs a")
          case None
          with d q Cons show ?thesis unfolding defs by (simp add: sms)
        next
          case (Some secs)
          note e = this
          show ?thesis
          proof (cases "secs > 60")
            case True
            with d q Cons e show ?thesis unfolding defs by (simp add: sms)
          next
            case s: False
            show ?thesis
            proof (cases "get_transcription (db b) (msg_id m) (msg_channel_id m)")
              case (Some data)
              with d q Cons e s show ?thesis unfolding defs by (simp add: sms)
            next
              case None
              with d q Cons e s show ?thesis unfolding defs
                by (simp add: sms add_to_queue_def)
            qed
          qed
        qed
      qed
    qed
  qed
qed

lemma last_embed_respond: "last_embed (respond b ctx e r) = Some e"
  by (simp add: last_embed_def respond_def)

lemma db_respond: "db (respond b ctx e r) = db b"
  by (simp add: respond_def)

lemma has_voice_note_voice_message: "has_voice_note (voice_message i c s)"
  by (simp add: has_voice_note_def voice_message_def drop_bit_eq_div)

lemma first_start_transcribe:
  "transcribe (on_start {} Database) (user_ctx 1) (voice_message 100 9 3) =
     \<lparr>owner_ids = {},
      db = \<lparr>queue = [\<lparr>job_id = 1, user_id = 1, message_id = 100, channel_id = 9,
                      job_locale = ''en-US''\<rparr>],
            queue_seq = 1, transcriptions = [], transcriptions_seq = 0,
            task_available = True\<rparr>,
      queue_size = 1,
      responses = [Inr \<lparr>resp_ctx = user_ctx 1, resp_embed = Queue_embed_starting,
                        cooldown_reset = False\<rparr>],
      replies = [], worker = W_select, handlers = []\<rparr>"
  unfolding transcribe_def
  by (simp add: has_voice_note_voice_message)
     (simp add: voice_message_def user_ctx_def on_start_def initialize_def Database_def
        is_owner_def user_in_queue_def message_in_queue_def get_transcription_def
        add_to_queue_def insert_job_def autoincrement_def respond_def get_queue_size_def
        locale_of_def py_or_def)

lemma one_queued_eq:
  "one_queued =
     \<lparr>owner_ids = {},
      db = \<lparr>queue = [\<lparr>job_id = 1, user_id = 1, message_id = 100, channel_id = 9,
                      job_locale = ''en-US''\<rparr>],
            queue_seq = 1, transcriptions = [], transcriptions_seq = 0,
            task_available = True\<rparr>,
      queue_size = 1,
      responses = [Inr \<lparr>resp_ctx = user_ctx 1, resp_embed = Queue_embed_starting,
                        cooldown_reset = False\<rparr>],
      replies = [], worker = W_select,
      handlers = [\<lparr>h_ctx = user_ctx 1, h_message = voice_message 100 9 3, h_pc = H_done\<rparr>]\<rparr>"
proof -
  have h: "handlers (on_start {} Database) = []" by (simp add: on_start_def Let_def)
  have a: "one_queued =
      run_alone 0 (step (Invoke (user_ctx 1) (voice_message 100 9 3)) (on_start {} Database))"
    unfolding one_queued_def first_request_def run_alone_def by simp
  have b: "run_alone 0 (step (Invoke (user_ctx 1) (voice_message 100 9 3)) (on_start {} Database)) =
      (transcribe (on_start {} Database) (user_ctx 1) (voice_message 100 9 3))
        \<lparr>handlers := [] @ [\<lparr>h_ctx = user_ctx 1, h_message = voice_message 100 9 3,
                              h_pc = H_done\<rparr>]\<rparr>"
    using transcribe_run_alone [of "on_start {} Database" "user_ctx 1" "voice_message 100 9 3"]
    by (simp only: h list.size)
  show ?thesis unfolding a b first_start_transcribe by simp
qed

section \<open>The order of the admission rules\<close>




section \<open>A stored transcription is served without queueing\<close>

lemma get_transcription_Some:
  "get_transcription d mid cid = Some t \<Longrightarrow>
     t \<in> set (transcriptions d) \<and> tr_message_id t = mid \<and> tr_channel_id t = cid"
  unfolding get_transcription_def by (auto simp: find_Some_iff)

lemma get_transcription_None:
  "(get_transcription d mid cid = None) =
     (\<not> (\<exists>t\<in>set (transcriptions d). tr_message_id t = mid \<and> tr_channel_id t = cid))"
  unfolding get_transcription_def by (auto simp: find_None_iff)

text \<open>
  Claim C4.  When a request passes the voice note check, both duplicate checks and the
  duration check, and the store holds a transcription of the message in its channel, the
  command answers with the embed of a stored transcription of that message (its text,
  id and creation time) and changes neither the store nor \<open>queue_size\<close>; the handler
  run alone ends in the same state, with no \<open>INSERT\<close>.
\<close>

theorem cached_result_returned:
  assumes "has_voice_note m"
    and "\<not> (\<not> is_owner b (author_id ctx) \<and> user_in_queue (db b) (author_id ctx))"
    and "\<not> message_in_queue (db b) (msg_id m)"
    and "attachments m = a # as" and "duration_secs a = Some secs" and "\<not> secs > 60"
    and "\<exists>t\<in>set (transcriptions (db b)).
           tr_message_id t = msg_id m \<and> tr_channel_id t = msg_channel_id m"
  shows "\<exists>t\<in>set (transcriptions (db b)).
           tr_message_id t = msg_id m \<and> tr_channel_id t = msg_channel_id m
           \<and> get_transcription (db b) (msg_id m) (msg_channel_id m) = Some t
           \<and> transcribe b ctx m =
               respond b ctx (Transcribed_embed (msg_id m) (tr_text t) (tr_id t) (created_at t))
                 False
           \<and> db (transcribe b ctx m) = db b
           \<and> queue_size (transcribe b ctx m) = queue_size b
           \<and> run_alone (length (handlers b)) (step (Invoke ctx m) b) =
               (respond b ctx (Transcribed_embed (msg_id m) (tr_text t) (tr_id t) (created_at t))
                  False)
               \<lparr>handlers := handlers b @ [\<lparr>h_ctx = ctx, h_message = m, h_pc = H_done\<rparr>]\<rparr>"
proof -
  from assms(7) obtain t where g: "get_transcription (db b) (msg_id m) (msg_channel_id m) = Some t"
    using get_transcription_None [of "db b" "msg_id m" "msg_channel_id m"] by auto
  from get_transcription_Some [OF g] have t: "t \<in> set (transcriptions (db b))"
    "tr_message_id t = msg_id m" "tr_channel_id t = msg_channel_id m" by auto
  have r: "transcribe b ctx m =
      respond b ctx (Transcribed_embed (msg_id m) (tr_text t) (tr_id t) (created_at t)) False"
    using assms(1-6) g by (auto simp: transcribe_def)
  have "db (transcribe b ctx m) = db b" "queue_size (transcribe b ctx m) = queue_size b"
    unfolding r by (simp_all add: respond_def)
  with t g r transcribe_run_alone [of b ctx m] show ?thesis by auto
qed

theorem cached_result_returned_witness:
  "transcribe one_cached (user_ctx 2) (voice_message 100 9 3) =
     respond one_cached (user_ctx 2) (Transcribed_embed 100 ''hello'' 1 1000) False
   \<and> queue (db (transcribe one_cached (user_ctx 2) (voice_message 100 9 3))) = []"
proof -
  have d: "db one_cached =
      \<lparr>queue = [], queue_seq = 0,
       transcriptions = [\<lparr>tr_id = 1, tr_message_id = 100, tr_channel_id = 9, tr_text = ''hello'',
                          created_at = 1000\<rparr>],
       transcriptions_seq = 1, task_available = False\<rparr>"
    by (simp add: one_cached_def add_transcription_def Database_def autoincrement_def)
  have 1: "has_voice_note (voice_message 100 9 3)" by (rule has_voice_note_voice_message)
  have 2: "\<not> (\<not> is_owner one_cached (author_id (user_ctx 2))
             \<and> user_in_queue (db one_cached) (author_id (user_ctx 2)))"
    by (simp add: d user_in_queue_def)
  have 3: "\<not> message_in_queue (db one_cached) (msg_id (voice_message 100 9 3))"
    by (simp add: d message_in_queue_def)
  have 4: "attachments (voice_message 100 9 3) = \<lparr>duration_secs = Some 3\<rparr> # []"
    by (simp add: voice_message_def)
  have 5: "duration_secs \<lparr>duration_secs = Some (3::real)\<rparr> = Some 3" by simp
  have 6: "\<not> (3::real) > 60" by simp
  have 7: "\<exists>t\<in>set (transcriptions (db one_cached)).
      tr_message_id t = msg_id (voice_message 100 9 3)
      \<and> tr_channel_id t = msg_channel_id (voice_message 100 9 3)"
    by (simp add: d voice_message_def)
  from cached_result_returned [OF 1 2 3 4 5 6 7]
  show ?thesis by (auto simp: d voice_message_def respond_def)
qed

section \<open>What one stretch of a coroutine changes\<close>

lemma step_Handler:
  "i < length (handlers b) \<Longrightarrow>
     step (Handler i) b =
       (snd (hstep (handlers b ! i) b))
         \<lparr>handlers := (handlers b)[i := fst (hstep (handlers b ! i) b)]\<rparr>"
  using hstep_handlers [of "handlers b ! i" b]
  by (cases "hstep (handlers b ! i) b") (simp del: hstep.simps)

lemma step_Handler_out: "\<not> i < length (handlers b) \<Longrightarrow> step (Handler i) b = b"
  by simp

lemma hstep_worker: "worker (snd (hstep h b)) = worker b"
  by (cases "h_pc h") (simp_all add: respond_def raise_def Let_def split: list.splits option.splits)

lemma hstep_db:
  "db (snd (hstep h b)) =
     (case h_pc h of
        H_insert e \<Rightarrow> insert_job (db b) (author_id (h_ctx h)) (msg_id (h_message h))
                        (msg_channel_id (h_message h)) (locale_of (h_ctx h))
      | H_set e \<Rightarrow> (db b)\<lparr>task_available := True\<rparr>
      | _ \<Rightarrow> db b)"
  by (cases "h_pc h") (simp_all add: respond_def raise_def Let_def split: list.splits option.splits)

lemma hstep_queue_size:
  "queue_size (snd (hstep h b)) =
     (case h_pc h of H_count e \<Rightarrow> queue_size b + 1 | _ \<Rightarrow> queue_size b)"
  by (cases "h_pc h") (simp_all add: respond_def raise_def Let_def split: list.splits option.splits)

lemma hstep_uncounted:
  "uncounted (fst (hstep h b)) =
     (case h_pc h of H_insert e \<Rightarrow> True | H_set e \<Rightarrow> True | _ \<Rightarrow> False)"
  by (cases "h_pc h") (simp_all add: at_pc_def Let_def split: list.splits option.splits)


lemma queue_insert_job:
  "queue (insert_job d u m c l) =
     queue d @ [\<lparr>job_id = autoincrement (queue_seq d) (map job_id (queue d)), user_id = u,
                 message_id = m, channel_id = c, job_locale = l\<rparr>]"
  by (simp add: insert_job_def Let_def)

lemma distinct_insert_job:
  "distinct (map job_id (queue d)) \<Longrightarrow> distinct (map job_id (queue (insert_job d u m c l)))"
  using autoincrement_gt [of "queue_seq d" "map job_id (queue d)"]
  by (auto simp: queue_insert_job)

lemma distinct_delete_job:
  "distinct (map job_id (queue d)) \<Longrightarrow> distinct (map job_id (queue (delete_job d i)))"
  by (simp add: delete_job_def distinct_map_filter)

lemma wstep_queue:
  "queue (db (wstep x now b)) =
     (case worker b of W_found m \<Rightarrow> queue (delete_job (db b) (job_id m)) | _ \<Rightarrow> queue (db b))"
  by (cases "worker b")
     (simp_all add: add_transcription_def Let_def split: option.splits ext.splits)

lemma wstep_handlers: "handlers (wstep x now b) = handlers b"
  by (cases "worker b")
     (simp_all add: add_transcription_def Let_def split: option.splits ext.splits)

lemma distinct_step:
  assumes "distinct (map job_id (queue (db b)))"
  shows "distinct (map job_id (queue (db (step e b))))"
proof (cases e)
  case (Invoke ctx m)
  with assms show ?thesis by simp
next
  case (Handler i)
  show ?thesis
  proof (cases "i < length (handlers b)")
    case True
    have "distinct (map job_id (queue (db (snd (hstep (handlers b ! i) b)))))"
      using assms distinct_insert_job [of "db b"] unfolding hstep_db
      by (cases "h_pc (handlers b ! i)") simp_all
    then show ?thesis unfolding Handler step_Handler [OF True] by simp
  next
    case False
    with assms Handler show ?thesis by simp
  qed
next
  case (Worker x now)
  show ?thesis unfolding Worker step.simps wstep_queue
    using assms distinct_delete_job [of "db b"] by (cases "worker b") simp_all
next
  case (Sweep now)
  with assms show ?thesis by (simp add: delete_outdated_def)
qed

lemma reachable_distinct: "reachable owners b \<Longrightarrow> distinct (map job_id (queue (db b)))"
proof (induction rule: reachable.induct)
  case (boot d)
  then show ?case by (simp add: on_start_def initialize_def Let_def)
next
  case (next_event b e)
  then show ?case by (simp add: distinct_step)
qed

lemma reachable_run: "reachable owners b \<Longrightarrow> reachable owners (run es b)"
  by (induction es arbitrary: b) (auto intro: reachable.next_event)

text \<open>
  From here on the stretches are used through the lemmas above; their definitions are
  unfolded only where a proof asks for it.
\<close>

declare hstep.simps [simp del] wstep.simps [simp del] uncounted.simps [simp del]
  unsignalled.simps [simp del]

section \<open>Invariants of the reachable states\<close>

lemma wstep_worker_found:
  "worker (wstep x now b) = W_found m \<Longrightarrow>
     worker b = W_select \<and> select_oldest (queue (db b)) = Some m"
proof (cases "worker b")
  case W_select
  assume "worker (wstep x now b) = W_found m"
  with W_select show ?thesis by (simp add: wstep.simps split: option.splits)
next
  case (W_found k)
  assume "worker (wstep x now b) = W_found m"
  with W_found show ?thesis by (simp add: wstep.simps)
next
  case W_wait
  assume "worker (wstep x now b) = W_found m"
  with W_wait show ?thesis by (simp add: wstep.simps split: if_splits)
next
  case (W_got task)
  assume "worker (wstep x now b) = W_found m"
  with W_got show ?thesis by (cases x) (simp_all add: wstep.simps)
next
  case (W_add task tx)
  assume "worker (wstep x now b) = W_found m"
  with W_add show ?thesis by (simp add: wstep.simps add_transcription_def Let_def)
next
  case (W_reply task tx uid time)
  assume "worker (wstep x now b) = W_found m"
  with W_reply show ?thesis by (cases x) (simp_all add: wstep.simps)
next
  case W_crashed
  assume "worker (wstep x now b) = W_found m"
  with W_crashed show ?thesis by (simp add: wstep.simps)
qed

lemma found_in_queue_step:
  assumes "\<forall>m. worker b = W_found m \<longrightarrow> m \<in> set (queue (db b))"
  shows "\<forall>m. worker (step e b) = W_found m \<longrightarrow> m \<in> set (queue (db (step e b)))"
proof (cases e)
  case (Invoke ctx m)
  with assms show ?thesis by simp
next
  case (Handler i)
  show ?thesis
  proof (cases "i < length (handlers b)")
    case True
    have "set (queue (db b)) \<subseteq> set (queue (db (snd (hstep (handlers b ! i) b))))"
      unfolding hstep_db by (cases "h_pc (handlers b ! i)") (auto simp: queue_insert_job)
    with assms show ?thesis unfolding Handler step_Handler [OF True]
      by (auto simp: hstep_worker)
  next
    case False
    with assms Handler show ?thesis by simp
  qed
next
  case (Worker x now)
  show ?thesis
  proof (intro allI impI)
    fix m assume "worker (step e b) = W_found m"
    then have w: "worker b = W_select" and s: "select_oldest (queue (db b)) = Some m"
      using wstep_worker_found [of x now b m] Worker by auto
    from select_oldest_Some [OF s] have "m \<in> set (queue (db b))" by simp
    then show "m \<in> set (queue (db (step e b)))" unfolding Worker step.simps wstep_queue
      using w by simp
  qed
next
  case (Sweep now)
  with assms show ?thesis by (simp add: delete_outdated_def)
qed

lemma reachable_found_in_queue:
  "reachable owners b \<Longrightarrow> \<forall>m. worker b = W_found m \<longrightarrow> m \<in> set (queue (db b))"
proof (induction rule: reachable.induct)
  case (boot d)
  then show ?case by (simp add: on_start_def Let_def)
next
  case (next_event b e)
  then show ?case using found_in_queue_step by blast
qed

lemma count_list_update:
  "i < length xs \<Longrightarrow>
     int (length (filter P (xs[i := y]))) =
       int (length (filter P xs)) - (if P (xs ! i) then 1 else 0) + (if P y then 1 else 0)"
proof (induction xs arbitrary: i)
  case Nil
  then show ?case by simp
next
  case (Cons a xs)
  show ?case
  proof (cases i)
    case 0
    then show ?thesis by simp
  next
    case (Suc k)
    with Cons.prems have "k < length xs" by simp
    from Cons.IH [OF this] Suc show ?thesis by (auto split: if_splits)
  qed
qed

lemma counted_step:
  assumes c: "counted b" and d: "distinct (map job_id (queue (db b)))"
    and f: "\<forall>m. worker b = W_found m \<longrightarrow> m \<in> set (queue (db b))"
  shows "counted (step e b)"
proof (cases e)
  case (Invoke ctx m)
  with c show ?thesis by (simp add: counted_def uncounted.simps)
next
  case (Handler i)
  show ?thesis
  proof (cases "i < length (handlers b)")
    case True
    let ?h = "handlers b ! i"
    show ?thesis
      using c unfolding Handler step_Handler [OF True] counted_def
      by (cases "h_pc ?h")
         (simp_all add: hstep_db hstep_queue_size hstep_worker hstep_uncounted
            count_list_update [OF True] get_queue_size_def queue_insert_job
            uncounted.simps [of ?h])
  next
    case False
    with c Handler show ?thesis by simp
  qed
next
  case (Worker x now)
  show ?thesis
  proof (cases "worker b")
    case (W_found m)
    with f have m: "m \<in> set (queue (db b))" by simp
    have "length (queue (delete_job (db b) (job_id m))) = length (queue (db b)) - 1"
      by (simp add: delete_job_def filter_id_remove1 [OF d m] length_remove1 m)
    moreover have "length (queue (db b)) \<noteq> 0" using m by auto
    ultimately have "int (length (queue (delete_job (db b) (job_id m)))) + 1 =
        int (length (queue (db b)))" by linarith
    then show ?thesis using c W_found unfolding Worker counted_def
      by (simp add: get_queue_size_def wstep.simps)
  next
    case W_select
    with c show ?thesis unfolding Worker counted_def by (simp add: wstep.simps split: option.splits)
  next
    case W_wait
    with c show ?thesis unfolding Worker counted_def by (simp add: get_queue_size_def wstep.simps)
  next
    case (W_got task)
    with c show ?thesis unfolding Worker counted_def
      by (cases x) (simp_all add: wstep.simps Let_def)
  next
    case (W_add task tx)
    with c show ?thesis unfolding Worker counted_def
      by (simp add: add_transcription_def Let_def get_queue_size_def wstep.simps)
  next
    case (W_reply task tx uid time)
    with c show ?thesis unfolding Worker counted_def
      by (cases x) (simp_all add: wstep.simps Let_def)
  next
    case W_crashed
    with c show ?thesis unfolding Worker counted_def by (simp add: wstep.simps)
  qed
next
  case (Sweep now)
  with c show ?thesis by (simp add: counted_def delete_outdated_def get_queue_size_def)
qed

lemma reachable_counted: "reachable owners b \<Longrightarrow> counted b"
proof (induction rule: reachable.induct)
  case (boot d)
  then show ?case by (simp add: counted_def on_start_def Let_def)
next
  case (next_event b e)
  then show ?case
    using counted_step reachable_distinct reachable_found_in_queue by blast
qed

section \<open>The worker is woken\<close>





















section \<open>Example states\<close>

lemma reachable_first_start: "reachable {} (on_start {} Database)"
  by (rule reachable.boot) (simp_all add: Database_def)

lemma reachable_one_queued: "reachable {} one_queued"
  unfolding one_queued_def by (rule reachable_run [OF reachable_first_start])

lemma reachable_job_popped: "reachable {} job_popped"
  unfolding job_popped_def by (rule reachable_run [OF reachable_one_queued])



lemma job_popped_facts:
  "worker job_popped =
     W_got \<lparr>job_id = 1, user_id = 1, message_id = 100, channel_id = 9, job_locale = ''en-US''\<rparr>"
  "queue (db job_popped) = []" "queue_size job_popped = 1" "task_available (db job_popped)"
  "transcriptions (db job_popped) = []" "replies job_popped = []"
  by code_simp+

section \<open>No wake-up is lost\<close>



section \<open>The queue position shown to the submitter\<close>

text \<open>
  Claim C7, as stated, fails.  On a first start with an empty queue the event is not
  set, the accepted request is answered with the \<open>starting\<close> embed and no position is
  shown, where the claim asks for position 1.  And when the worker has popped the only
  job and not yet subtracted it from \<open>queue_size\<close>, an accepted request is shown
  position 2 although the queue is empty before its \<open>INSERT\<close>.
\<close>

theorem position_not_size_plus_one_counterexample:
  "Option.bind (last_embed (transcribe (on_start {} Database) (user_ctx 1)
       (voice_message 100 9 3))) reported_position = None
   \<and> get_queue_size (db (on_start {} Database)) + 1 = 1
   \<and> get_queue_size (db (transcribe (on_start {} Database) (user_ctx 1)
         (voice_message 100 9 3))) = 1
   \<and> Option.bind (last_embed (transcribe job_popped (user_ctx 2) (voice_message 101 9 3)))
         reported_position = Some 2
   \<and> get_queue_size (db job_popped) + 1 = 1
   \<and> get_queue_size (db (transcribe job_popped (user_ctx 2) (voice_message 101 9 3))) = 1"
  by code_simp

lemma transcribe_accept:
  assumes "has_voice_note m"
    and "\<not> (\<not> is_owner b (author_id ctx) \<and> user_in_queue (db b) (author_id ctx))"
    and "\<not> message_in_queue (db b) (msg_id m)"
    and "attachments m = a # as" and "duration_secs a = Some secs" and "\<not> secs > 60"
    and "get_transcription (db b) (msg_id m) (msg_channel_id m) = None"
  shows "transcribe b ctx m =
     respond (b\<lparr>db := add_to_queue (db b) (author_id ctx) (msg_id m) (msg_channel_id m)
                       (locale_of ctx),
               queue_size := queue_size b + 1\<rparr>) ctx
       (if task_available (db b) then Queue_embed_added (queue_size b + 1)
        else Queue_embed_starting) False"
  using assms by (auto simp: transcribe_def Let_def)

lemma quiescent_counted:
  assumes "reachable owners b" and "\<forall>h\<in>set (handlers b). \<not> uncounted h"
    and "\<not> holds_job (worker b)"
  shows "queue_size b = get_queue_size (db b)"
proof -
  from assms(2) have "filter uncounted (handlers b) = []" by (simp add: filter_empty_conv)
  with reachable_counted [OF assms(1)] assms(3) show ?thesis by (simp add: counted_def)
qed

text \<open>
  Claim C7, amended.  For every accepted request: when \<open>task_available\<close> is set at the
  time of the decision, the position shown is \<open>queue_size + 1\<close>, the counter of the
  transcriber read before the \<open>INSERT\<close>; when it is not set, the \<open>starting\<close> embed is
  sent, which shows no position.  The request adds one row and one to the counter.  The
  counter equals the size of the queue in every reachable state in which no handler is
  between its \<open>INSERT\<close> and its \<open>queue_size += 1\<close> and the worker is not between its
  \<open>DELETE\<close> and its \<open>queue_size -= 1\<close>.
\<close>

theorem position_from_counter:
  assumes "has_voice_note m"
    and "\<not> (\<not> is_owner b (author_id ctx) \<and> user_in_queue (db b) (author_id ctx))"
    and "\<not> message_in_queue (db b) (msg_id m)"
    and "attachments m = a # as" and "duration_secs a = Some secs" and "\<not> secs > 60"
    and "get_transcription (db b) (msg_id m) (msg_channel_id m) = None"
  shows "last_embed (transcribe b ctx m) =
           Some (if task_available (db b) then Queue_embed_added (queue_size b + 1)
                 else Queue_embed_starting)
    \<and> Option.bind (last_embed (transcribe b ctx m)) reported_position =
           (if task_available (db b) then Some (queue_size b + 1) else None)
    \<and> get_queue_size (db (transcribe b ctx m)) = get_queue_size (db b) + 1
    \<and> queue_size (transcribe b ctx m) = queue_size b + 1
    \<and> (reachable owners b \<and> (\<forall>h\<in>set (handlers b). \<not> uncounted h)
          \<and> \<not> holds_job (worker b) \<longrightarrow> queue_size b = get_queue_size (db b))"
proof -
  note t = transcribe_accept [OF assms]
  have 1: "last_embed (transcribe b ctx m) =
           Some (if task_available (db b) then Queue_embed_added (queue_size b + 1)
                 else Queue_embed_starting)"
    unfolding t by (rule last_embed_respond)
  have 2: "Option.bind (last_embed (transcribe b ctx m)) reported_position =
           (if task_available (db b) then Some (queue_size b + 1) else None)"
    unfolding 1 by simp
  have 3: "get_queue_size (db (transcribe b ctx m)) = get_queue_size (db b) + 1"
    unfolding t by (simp add: respond_def get_queue_size_def queue_add_to_queue)
  have 4: "queue_size (transcribe b ctx m) = queue_size b + 1"
    unfolding t by (simp add: respond_def)
  from 1 2 3 4 quiescent_counted [of owners b] show ?thesis by blast
qed

theorem position_from_counter_witness:
  "reachable {} one_queued
   \<and> last_embed (transcribe one_queued (user_ctx 2) (voice_message 101 9 3)) =
       Some (Queue_embed_added 2)
   \<and> queue_size one_queued = get_queue_size (db one_queued)
   \<and> get_queue_size (db one_queued) + 1 = 2"
proof -
  have 1: "has_voice_note (voice_message 101 9 3)" by (rule has_voice_note_voice_message)
  have 2: "\<not> (\<not> is_owner one_queued (author_id (user_ctx 2))
             \<and> user_in_queue (db one_queued) (author_id (user_ctx 2)))"
    by (simp add: one_queued_eq user_in_queue_def user_ctx_def)
  have 3: "\<not> message_in_queue (db one_queued) (msg_id (voice_message 101 9 3))"
    by (simp add: one_queued_eq message_in_queue_def voice_message_def)
  have 4: "attachments (voice_message 101 9 3) = \<lparr>duration_secs = Some 3\<rparr> # []"
    by (simp add: voice_message_def)
  have 5: "duration_secs \<lparr>duration_secs = Some (3::real)\<rparr> = Some 3" by simp
  have 6: "\<not> (3::real) > 60" by simp
  have 7: "get_transcription (db one_queued) (msg_id (voice_message 101 9 3))
      (msg_channel_id (voice_message 101 9 3)) = None"
    by (simp add: one_queued_eq get_transcription_def)
  have q: "(\<forall>h\<in>set (handlers one_queued). \<not> uncounted h) \<and> \<not> holds_job (worker one_queued)"
    by (simp add: one_queued_eq uncounted.simps)
  from position_from_counter [OF 1 2 3 4 5 6 7, of "{}"] reachable_one_queued q
  show ?thesis by (simp add: one_queued_eq get_queue_size_def)
qed

section \<open>Two handlers between check and insert\<close>

text \<open>
  Run alone, the command rejects a request whose submitter and message have a job in
  the queue, and leaves the store as it is.
\<close>

lemma resubmission_rejected:
  assumes "j \<in> set (queue (db b))" and "user_id j = author_id ctx"
    and "message_id j = msg_id m" and "has_voice_note m"
  shows "(transcribe b ctx m = respond b ctx (Error_embed ''transcribe.user-in-queue'') True
          \<or> transcribe b ctx m = respond b ctx (Error_embed ''transcribe.message-in-queue'') True)
         \<and> db (transcribe b ctx m) = db b"
proof -
  have "filter (\<lambda>k. user_id k = author_id ctx) (queue (db b)) \<noteq> []"
    using assms(1,2) by (auto simp: filter_empty_conv)
  then have u: "user_in_queue (db b) (author_id ctx)" by (simp add: user_in_queue_def)
  have "filter (\<lambda>k. message_id k = msg_id m) (queue (db b)) \<noteq> []"
    using assms(1,3) by (auto simp: filter_empty_conv)
  then have q: "message_in_queue (db b) (msg_id m)" by (simp add: message_in_queue_def)
  show ?thesis using u q assms(4)
    by (cases "is_owner b (author_id ctx)") (simp_all add: transcribe_def respond_def)
qed

text \<open>
  Claim C3 at the schedule \<open>race\<close>.  Users 1 and 2 invoke the command on voice message
  100; each handler runs its \<open>user_in_queue\<close> and \<open>message_in_queue\<close> queries before the
  other has inserted, so both find nothing and both insert: the queue then holds two jobs
  for message 100, where the claim allows one.
\<close>

theorem race_duplicates_message:
  "map message_id (queue (db (run race (on_start {} Database)))) = [100, 100]
   \<and> map user_id (queue (db (run race (on_start {} Database)))) = [1, 2]
   \<and> map job_id (queue (db (run race (on_start {} Database)))) = [1, 2]"
  by code_simp

section \<open>A request for a message whose job is being processed\<close>

text \<open>
  Claim C5 at the schedule \<open>resubmit_in_flight\<close>.  The worker has popped the job of
  message 100 and is transcribing it when user 2 asks for the same message: the queue is
  empty and no transcription is stored yet, so the request is accepted, and the worker
  stores a second transcription of message 100 in channel 9, where the claim allows one.
\<close>

theorem resubmit_in_flight_duplicates:
  "map tr_message_id (transcriptions (db (run resubmit_in_flight (on_start {} Database))))
     = [100, 100]
   \<and> map tr_channel_id (transcriptions (db (run resubmit_in_flight (on_start {} Database))))
     = [9, 9]
   \<and> map tr_id (transcriptions (db (run resubmit_in_flight (on_start {} Database)))) = [1, 2]"
  by code_simp

section \<open>A job whose source is gone\<close>

lemma below_sequence_insert:
  assumes "below_sequence b"
  shows "below_sequence (b\<lparr>db := insert_job (db b) u m c l\<rparr>)"
proof -
  let ?i = "autoincrement (queue_seq (db b)) (map job_id (queue (db b)))"
  have gt: "queue_seq (db b) < ?i"
    using autoincrement_gt [of "queue_seq (db b)" "map job_id (queue (db b))"] by simp
  have q: "queue (insert_job (db b) u m c l) = queue (db b) @
      [\<lparr>job_id = ?i, user_id = u, message_id = m, channel_id = c, job_locale = l\<rparr>]"
    by (rule queue_insert_job)
  have s: "queue_seq (insert_job (db b) u m c l) = ?i" by (simp add: insert_job_def Let_def)
  show ?thesis using assms gt unfolding below_sequence_def by (auto simp: q s)
qed

lemma below_sequence_step:
  assumes inv: "below_sequence b"
    and f: "\<forall>m. worker b = W_found m \<longrightarrow> m \<in> set (queue (db b))"
  shows "below_sequence (step e b)"
proof (cases e)
  case (Invoke ctx m)
  with inv show ?thesis by (simp add: below_sequence_def)
next
  case (Handler i)
  show ?thesis
  proof (cases "i < length (handlers b)")
    case False
    with inv Handler show ?thesis by (simp add: step_Handler_out)
  next
    case True
    let ?h = "handlers b ! i"
    have eq: "below_sequence (step e b) = below_sequence (snd (hstep ?h b))"
      unfolding Handler step_Handler [OF True] by (simp add: below_sequence_def)
    show ?thesis
    proof (cases "h_pc ?h")
      case (H_insert x)
      have "db (snd (hstep ?h b)) = db (b\<lparr>db := insert_job (db b) (author_id (h_ctx ?h))
          (msg_id (h_message ?h)) (msg_channel_id (h_message ?h)) (locale_of (h_ctx ?h))\<rparr>)"
        using H_insert by (simp add: hstep_db)
      with below_sequence_insert [OF inv] show ?thesis unfolding eq
        by (simp add: below_sequence_def hstep_worker)
    qed (use inv in \<open>unfold eq, simp_all add: below_sequence_def hstep_db hstep_worker\<close>)
  qed
next
  case (Worker x now)
  show ?thesis
  proof (cases "worker b")
    case W_select
    show ?thesis
    proof (cases "select_oldest (queue (db b))")
      case None
      with inv W_select show ?thesis unfolding Worker
        by (simp add: wstep.simps below_sequence_def)
    next
      case (Some m)
      from select_oldest_Some [OF Some] have "m \<in> set (queue (db b))" by simp
      with inv Some W_select show ?thesis unfolding Worker
        by (simp add: wstep.simps below_sequence_def)
    qed
  next
    case (W_found m)
    with inv show ?thesis unfolding Worker
      by (auto simp: wstep.simps below_sequence_def delete_job_def)
  next
    case W_wait
    with inv show ?thesis unfolding Worker by (simp add: wstep.simps below_sequence_def)
  next
    case (W_got task)
    with inv show ?thesis unfolding Worker
      by (cases x) (simp_all add: wstep.simps Let_def below_sequence_def)
  next
    case (W_add task tx)
    with inv show ?thesis unfolding Worker
      by (simp add: wstep.simps add_transcription_def Let_def below_sequence_def)
  next
    case (W_reply task tx uid time)
    with inv show ?thesis unfolding Worker
      by (cases x) (simp_all add: wstep.simps below_sequence_def)
  next
    case W_crashed
    with inv show ?thesis unfolding Worker by (simp add: wstep.simps)
  qed
next
  case (Sweep now)
  with inv show ?thesis by (simp add: below_sequence_def delete_outdated_def)
qed

lemma reachable_below_sequence: "reachable owners b \<Longrightarrow> below_sequence b"
proof (induction rule: reachable.induct)
  case (boot d)
  then show ?case by (simp add: below_sequence_def on_start_def initialize_def Let_def)
next
  case (next_event b e)
  then show ?case using below_sequence_step reachable_found_in_queue by blast
qed

lemma wstep_queue_subset: "set (queue (db (wstep y t b))) \<subseteq> set (queue (db b))"
  unfolding wstep_queue by (cases "worker b") (auto simp: delete_job_def)

text \<open>
  Claim C9.  When the channel is not resolved or \<open>fetch_message\<close> raises \<open>NotFound\<close>,
  the stretch of the worker that follows \<open>get\<close> changes nothing but \<open>queue_size\<close>,
  which it lowers by one, and the control point, which goes back to the \<open>SELECT\<close> of
  the next iteration: no transcription is stored, no reply and no response is sent, the
  worker does not end, and the queue is left as it is.  The \<open>DELETE\<close> of \<open>get\<close> has
  removed the job, no stretch of the worker adds a row, and in every reachable state the
  job that the worker holds has no row in the queue.
\<close>

theorem missing_source_abandons_job:
  "(x = Channel_missing \<or> x = Message_missing) \<longrightarrow>
     (worker b = W_got task \<longrightarrow>
        step (Worker x now) b = b\<lparr>queue_size := queue_size b - 1, worker := W_select\<rparr>)
     \<and> (worker b = W_found task \<longrightarrow>
          run [Worker y t, Worker x now] b =
            b\<lparr>db := delete_job (db b) (job_id task), queue_size := queue_size b - 1,
              worker := W_select\<rparr>
          \<and> task \<notin> set (queue (delete_job (db b) (job_id task)))
          \<and> transcriptions (delete_job (db b) (job_id task)) = transcriptions (db b))
     \<and> (reachable owners b \<and> worker b = W_got task \<longrightarrow>
          job_id task \<notin> job_id ` set (queue (db b)))
     \<and> set (queue (db (step (Worker y t) b))) \<subseteq> set (queue (db b))"
proof -
  have 1: "x = Channel_missing \<or> x = Message_missing \<Longrightarrow> worker b = W_got task \<Longrightarrow>
      step (Worker x now) b = b\<lparr>queue_size := queue_size b - 1, worker := W_select\<rparr>"
    by (auto simp: wstep.simps Let_def)
  have 2: "x = Channel_missing \<or> x = Message_missing \<Longrightarrow> worker b = W_found task \<Longrightarrow>
      run [Worker y t, Worker x now] b =
        b\<lparr>db := delete_job (db b) (job_id task), queue_size := queue_size b - 1,
          worker := W_select\<rparr>"
    by (auto simp: wstep.simps Let_def)
  have 3: "task \<notin> set (queue (delete_job (db b) (job_id task)))
      \<and> transcriptions (delete_job (db b) (job_id task)) = transcriptions (db b)"
    by (simp add: delete_job_def)
  have 4: "reachable owners b \<and> worker b = W_got task \<longrightarrow>
      job_id task \<notin> job_id ` set (queue (db b))"
    using reachable_below_sequence [of owners b] by (simp add: below_sequence_def)
  have 5: "set (queue (db (step (Worker y t) b))) \<subseteq> set (queue (db b))"
    using wstep_queue_subset [of y t b] by simp
  from 1 2 3 4 5 show ?thesis by blast
qed

theorem missing_source_abandons_job_witness:
  "reachable {} job_popped
   \<and> worker job_popped =
       W_got \<lparr>job_id = 1, user_id = 1, message_id = 100, channel_id = 9, job_locale = ''en-US''\<rparr>
   \<and> step (Worker Message_missing 1000) job_popped =
       job_popped\<lparr>queue_size := queue_size job_popped - 1, worker := W_select\<rparr>
   \<and> queue (db job_popped) = [] \<and> transcriptions (db job_popped) = []
   \<and> replies job_popped = []"
  using missing_source_abandons_job [of Message_missing job_popped
      "\<lparr>job_id = 1, user_id = 1, message_id = 100, channel_id = 9, job_locale = ''en-US''\<rparr>"
      1000 undefined 0 "{}"]
    reachable_job_popped job_popped_facts
  by simp

end
